theory Spec2Isabelle
  imports Main
begin

section \<open>Text\<close>

text \<open>
  A Python \<^verbatim>\<open>str\<close> is a sequence of code points. The model covers the code points
  U+0000 to U+00FF: a text is a \<open>string\<close> whose every \<open>char\<close> stands for the code point
  of the same number, so \<open>length\<close> is Python's \<^verbatim>\<open>len\<close>. The character tables below are
  the Unicode ones of Python 3 cut down to that range.
\<close>

definition ord :: "char \<Rightarrow> nat" where
  "ord c = of_char c"

definition isspace :: "char \<Rightarrow> bool" where
  \<comment> \<open>\<^verbatim>\<open>str.isspace\<close>, also the class \<^verbatim>\<open>\s\<close> and what \<^verbatim>\<open>split\<close> and \<^verbatim>\<open>strip\<close> remove\<close>
  "isspace c = (let n = ord c in (9 \<le> n \<and> n \<le> 13) \<or> (28 \<le> n \<and> n \<le> 32) \<or> n = 133 \<or> n = 160)"

definition isdigit :: "char \<Rightarrow> bool" where
  \<comment> \<open>the class \<^verbatim>\<open>\d\<close>\<close>
  "isdigit c = (let n = ord c in 48 \<le> n \<and> n \<le> 57)"

definition isalpha_ascii :: "char \<Rightarrow> bool" where
  \<comment> \<open>the class \<^verbatim>\<open>[A-Za-z]\<close>\<close>
  "isalpha_ascii c = (let n = ord c in (65 \<le> n \<and> n \<le> 90) \<or> (97 \<le> n \<and> n \<le> 122))"

definition isword :: "char \<Rightarrow> bool" where
  \<comment> \<open>the class \<^verbatim>\<open>\w\<close>: alphanumeric in Unicode's sense, or the underscore\<close>
  "isword c = (let n = ord c in
     isdigit c \<or> isalpha_ascii c \<or> n = 95 \<or> n = 170 \<or> n = 178 \<or> n = 179 \<or> n = 181 \<or>
     n = 185 \<or> n = 186 \<or> (188 \<le> n \<and> n \<le> 190) \<or> (192 \<le> n \<and> n \<le> 214) \<or>
     (216 \<le> n \<and> n \<le> 246) \<or> (248 \<le> n \<and> n \<le> 255))"

definition is_linebreak :: "char \<Rightarrow> bool" where
  \<comment> \<open>the line boundaries of \<^verbatim>\<open>str.splitlines\<close>\<close>
  "is_linebreak c = (let n = ord c in (10 \<le> n \<and> n \<le> 13) \<or> (28 \<le> n \<and> n \<le> 30) \<or> n = 133)"

definition lower :: "char \<Rightarrow> char" where
  \<comment> \<open>the case folding that \<^verbatim>\<open>re.IGNORECASE\<close> applies to the letters of the patterns,
      which are all ASCII: a capital letter \<^verbatim>\<open>A\<close> to \<^verbatim>\<open>Z\<close> becomes the character 32 places
      further on (the bit of value 32 is set), any other character stays\<close>
  "lower c =
     (if 65 \<le> ord c \<and> ord c \<le> 90
      then Char (digit0 c) (digit1 c) (digit2 c) (digit3 c) (digit4 c) True (digit6 c) (digit7 c)
      else c)"

definition newline :: char where
  "newline = CHR 0x0A"

text \<open>\<^verbatim>\<open>len(s.split())\<close>: runs of whitespace separate the tokens, and no token is empty.\<close>

function str_split :: "string \<Rightarrow> string list" where
  "str_split s =
     (case dropWhile isspace s of
        [] \<Rightarrow> []
      | c # cs \<Rightarrow> (c # takeWhile (\<lambda>x. \<not> isspace x) cs) # str_split (dropWhile (\<lambda>x. \<not> isspace x) cs))"
  by pat_completeness auto
termination
proof (relation "measure length")
  fix s :: string and c cs
  assume "dropWhile isspace s = c # cs"
  then have "length (c # cs) \<le> length s"
    by (metis length_dropWhile_le)
  moreover have "length (dropWhile (\<lambda>x. \<not> isspace x) cs) \<le> length cs"
    by (rule length_dropWhile_le)
  ultimately show "(dropWhile (\<lambda>x. \<not> isspace x) cs, s) \<in> measure length"
    by simp
qed simp

declare str_split.simps [simp del]

text \<open>\<^verbatim>\<open>s.split('\n')\<close>: one piece more than there are newlines.\<close>

fun split_on :: "char \<Rightarrow> string \<Rightarrow> string \<Rightarrow> string list" where
  "split_on sep cur [] = [rev cur]"
| "split_on sep cur (c # cs) =
     (if c = sep then rev cur # split_on sep [] cs else split_on sep (c # cur) cs)"

definition str_split_newline :: "string \<Rightarrow> string list" where
  "str_split_newline s = split_on newline [] s"

text \<open>\<^verbatim>\<open>s.strip()\<close>\<close>

definition str_strip :: "string \<Rightarrow> string" where
  "str_strip s = rev (dropWhile isspace (rev (dropWhile isspace s)))"

text \<open>
  \<^verbatim>\<open>s.splitlines()\<close>: a line ends at a line boundary, carriage return followed by line
  feed is one boundary, and a text that ends with a boundary has no empty last line.
\<close>

fun splitlines_from :: "string \<Rightarrow> string \<Rightarrow> string list" where
  "splitlines_from cur [] = (if cur = [] then [] else [rev cur])"
| "splitlines_from cur [c] =
     (if is_linebreak c then [rev cur] else [rev (c # cur)])"
| "splitlines_from cur (c # d # ds) =
     (if is_linebreak c
      then rev cur # (if ord c = 13 \<and> ord d = 10 then splitlines_from [] ds
                      else splitlines_from [] (d # ds))
      else splitlines_from (c # cur) (d # ds))"

definition str_splitlines :: "string \<Rightarrow> string list" where
  "str_splitlines s = splitlines_from [] s"

text \<open>\<^verbatim>\<open>"\n".join(lines)\<close>\<close>

fun join_newline :: "string list \<Rightarrow> string" where
  "join_newline [] = []"
| "join_newline [l] = l"
| "join_newline (l # m # ls) = l @ newline # join_newline (m # ls)"

section \<open>Regular expressions\<close>

text \<open>
  The patterns of the two scripts use literals, character classes, \<^verbatim>\<open>\b\<close>,
  concatenation, alternation, an optional group, and repetition of a single character
  class (\<^verbatim>\<open>+\<close>, \<^verbatim>\<open>*\<close>, \<^verbatim>\<open>{m,n}\<close>, \<^verbatim>\<open>{m,}\<close>). Python's engine backtracks:
  the first alternative is tried first, and a greedy repetition takes as many
  characters as it can before it gives them back one at a time.
\<close>

datatype regex =
    Eps
  | Chr "char \<Rightarrow> bool"
  | Bnd
  | Seq regex regex
  | Alt regex regex
  | Opt regex
  | Rep "char \<Rightarrow> bool" nat "nat option"

text \<open>A cursor is a place in the text: the character before it, if any, and what is left.\<close>

type_synonym cursor = "char option \<times> string"

fun advance :: "nat \<Rightarrow> cursor \<Rightarrow> cursor" where
  "advance 0 cur = cur"
| "advance (Suc k) (prev, []) = (prev, [])"
| "advance (Suc k) (prev, c # cs) = advance k (Some c, cs)"

definition at_boundary :: "cursor \<Rightarrow> bool" where
  \<comment> \<open>\<^verbatim>\<open>\b\<close>: exactly one of the two neighbours is a word character\<close>
  "at_boundary cur =
     ((case fst cur of None \<Rightarrow> False | Some c \<Rightarrow> isword c) \<noteq>
      (case snd cur of [] \<Rightarrow> False | c # _ \<Rightarrow> isword c))"

text \<open>
  \<open>matches r cur\<close> lists the cursors at which a match of \<open>r\<close> that starts at \<open>cur\<close> can
  end, in the order in which the backtracking engine reaches them.
\<close>

fun matches :: "regex \<Rightarrow> cursor \<Rightarrow> cursor list" where
  "matches Eps cur = [cur]"
| "matches (Chr P) (prev, []) = []"
| "matches (Chr P) (prev, c # cs) = (if P c then [(Some c, cs)] else [])"
| "matches Bnd cur = (if at_boundary cur then [cur] else [])"
| "matches (Seq r1 r2) cur = concat (map (matches r2) (matches r1 cur))"
| "matches (Alt r1 r2) cur = matches r1 cur @ matches r2 cur"
| "matches (Opt r) cur = matches r cur @ [cur]"
| "matches (Rep P lo hi) cur =
     (let n = length (takeWhile P (snd cur));
          n' = (case hi of None \<Rightarrow> n | Some h \<Rightarrow> min n h)
      in map (\<lambda>k. advance k cur) (rev [lo..<Suc n']))"

text \<open>\<^verbatim>\<open>re.fullmatch\<close>: some way of matching from the start ends at the end of the text.\<close>

definition re_fullmatch :: "regex \<Rightarrow> string \<Rightarrow> bool" where
  "re_fullmatch r s = list_ex (\<lambda>cur. snd cur = []) (matches r (None, s))"

text \<open>\<^verbatim>\<open>re.search\<close>, as a truth value: there is a match starting somewhere in the text.\<close>

fun search_from :: "regex \<Rightarrow> char option \<Rightarrow> string \<Rightarrow> bool" where
  "search_from r prev [] = (matches r (prev, []) \<noteq> [])"
| "search_from r prev (c # cs) = (matches r (prev, c # cs) \<noteq> [] \<or> search_from r (Some c) cs)"

definition re_search :: "regex \<Rightarrow> string \<Rightarrow> bool" where
  "re_search r s = search_from r None s"

lemma advance_length: "length (snd (advance k cur)) \<le> length (snd cur)"
proof (induction k cur rule: advance.induct)
  case (3 k prev c cs)
  then show ?case by simp
qed simp_all

lemma matches_length:
  "e \<in> set (matches r cur) \<Longrightarrow> length (snd e) \<le> length (snd cur)"
proof (induction r arbitrary: cur e)
  case (Chr P)
  then show ?case by (cases cur; cases "snd cur") (auto split: if_splits)
next
  case (Seq r1 r2)
  then obtain mid where "mid \<in> set (matches r1 cur)" and "e \<in> set (matches r2 mid)"
    by auto
  with Seq.IH have "length (snd mid) \<le> length (snd cur)" and "length (snd e) \<le> length (snd mid)"
    by blast+
  then show ?case by simp
next
  case (Rep P lo hi)
  then show ?case by (auto simp: Let_def advance_length)
qed (auto split: if_splits)

text \<open>
  \<^verbatim>\<open>re.findall\<close> for a pattern without groups: the matched pieces of text, found from
  left to right; the search goes on where the last match ended, and right after an empty
  match the next one at the same place has to be non-empty.
\<close>

function findall_from :: "regex \<Rightarrow> bool \<Rightarrow> cursor \<Rightarrow> string list" where
  "findall_from r must_advance cur =
     (case filter (\<lambda>e. \<not> must_advance \<or> length (snd e) < length (snd cur)) (matches r cur) of
        e # _ \<Rightarrow> take (length (snd cur) - length (snd e)) (snd cur) #
                 findall_from r (length (snd e) = length (snd cur)) e
      | [] \<Rightarrow> (case snd cur of
                 [] \<Rightarrow> []
               | c # cs \<Rightarrow> findall_from r False (Some c, cs)))"
  by pat_completeness auto
termination
proof (relation "measures [\<lambda>(r, must_advance, cur). length (snd cur),
                           \<lambda>(r, must_advance, cur). if must_advance then 0 else 1]")
  fix r must_advance cur e rest
  assume "filter (\<lambda>e. \<not> must_advance \<or> length (snd e) < length (snd cur)) (matches r cur) = e # rest"
  then have "e \<in> set (filter (\<lambda>e. \<not> must_advance \<or> length (snd e) < length (snd cur)) (matches r cur))"
    by simp
  then have "e \<in> set (matches r cur)" and "\<not> must_advance \<or> length (snd e) < length (snd cur)"
    by simp_all
  moreover from \<open>e \<in> set (matches r cur)\<close> have "length (snd e) \<le> length (snd cur)"
    by (rule matches_length)
  ultimately show "((r, length (snd e) = length (snd cur), e), (r, must_advance, cur))
      \<in> measures [\<lambda>(r, must_advance, cur). length (snd cur),
                   \<lambda>(r, must_advance, cur). if must_advance then 0 else 1]"
    by auto
qed auto

declare findall_from.simps [simp del]

definition re_findall :: "regex \<Rightarrow> string \<Rightarrow> string list" where
  "re_findall r s = findall_from r False (None, s)"

text \<open>How the patterns are written.\<close>

definition lit :: "char \<Rightarrow> regex" where
  "lit c = Chr ((=) c)"

definition same_letter :: "char \<Rightarrow> char \<Rightarrow> bool" where
  "same_letter c x = (lower x = lower c)"

definition ilit :: "char \<Rightarrow> regex" where
  \<comment> \<open>a literal under \<^verbatim>\<open>re.IGNORECASE\<close> or \<^verbatim>\<open>(?i)\<close>\<close>
  "ilit c = Chr (same_letter c)"

primrec istr :: "string \<Rightarrow> regex" where
  "istr [] = Eps"
| "istr (c # cs) = Seq (ilit c) (istr cs)"

fun seqs :: "regex list \<Rightarrow> regex" where
  "seqs [] = Eps"
| "seqs [r] = r"
| "seqs (r # rs) = Seq r (seqs rs)"

fun alts :: "regex list \<Rightarrow> regex" where
  "alts [] = Chr (\<lambda>x. False)"
| "alts [r] = r"
| "alts (r # rs) = Alt r (alts rs)"

definition plus :: "(char \<Rightarrow> bool) \<Rightarrow> regex" where
  "plus P = Rep P 1 None"

definition star :: "(char \<Rightarrow> bool) \<Rightarrow> regex" where
  "star P = Rep P 0 None"

definition word :: "string \<Rightarrow> regex" where
  \<comment> \<open>\<^verbatim>\<open>\bw\b\<close>, ignoring case\<close>
  "word w = seqs [Bnd, istr w, Bnd]"

section \<open>The analysis record\<close>

text \<open>
  Both scripts build a dictionary with a fixed set of keys, every one of them created by
  the dictionary display that starts the function and none ever deleted: a record. The
  keys that both have are the fields of \<open>analysis\<close>; \<^verbatim>\<open>rep.py\<close> adds
  \<^verbatim>\<open>sections_content\<close>, a dictionary from section names to text, and \<^verbatim>\<open>cvf.py\<close>
  adds \<^verbatim>\<open>total_lines\<close>.
\<close>

record analysis =
  total_chars :: int
  total_words :: int
  sections_found :: "string list"
  skills_indicators :: "string list"
  experience_indicators :: "string list"
  education_indicators :: "string list"
  contact_info :: "string list"
  potential_issues :: "string list"

record cv_analysis = analysis +
  sections_content :: "string \<rightharpoonup> string"

record structure_analysis = analysis +
  total_lines :: int

datatype error = KeyError

section \<open>\<^verbatim>\<open>rep.py\<close>: \<^verbatim>\<open>analyze_cv\<close>\<close>

text \<open>
  \<^verbatim>\<open>'Experience': r'(?i)(work\s+|professional\s+)?experience|employment|career'\<close>,
  \<^verbatim>\<open>'Education': r'(?i)education|qualifications|study'\<close>,
  \<^verbatim>\<open>'Skills': r'(?i)skills?|technologies|competencies'\<close>, in the order of the dictionary.
\<close>

definition section_patterns :: "(string \<times> regex) list" where
  "section_patterns =
     [(''Experience'',
         alts [Seq (Opt (Alt (Seq (istr ''work'') (plus isspace))
                             (Seq (istr ''professional'') (plus isspace))))
                   (istr ''experience''),
               istr ''employment'',
               istr ''career'']),
      (''Education'', alts [istr ''education'', istr ''qualifications'', istr ''study'']),
      (''Skills'',
         alts [Seq (istr ''skill'') (Opt (ilit CHR ''s'')),
               istr ''technologies'',
               istr ''competencies''])]"

text \<open>
  The loop over the lines (lines 26 to 42) changes three things: the current section, the
  list \<^verbatim>\<open>sections_found\<close> and the dictionary \<^verbatim>\<open>sections_content\<close>, whose values are
  lists of lines while the loop runs.
\<close>

record scan =
  current_section :: "string option"
  found :: "string list"
  content :: "string \<rightharpoonup> string list"

definition header_of :: "string \<Rightarrow> string option" where
  \<comment> \<open>the first section whose pattern matches the whole of the stripped line\<close>
  "header_of stripped =
     map_option fst (find (\<lambda>(section, pattern). re_fullmatch pattern stripped) section_patterns)"

definition scan_line :: "scan \<Rightarrow> string \<Rightarrow> error + scan" where
  "scan_line st line =
     (let stripped = str_strip line in
      if stripped = [] then Inr st
      else case header_of stripped of
             Some section \<Rightarrow>
               Inr (st\<lparr>current_section := Some section,
                        found := found st @ [section],
                        content := (content st)(section \<mapsto> [])\<rparr>)
           | None \<Rightarrow>
               (case current_section st of
                  None \<Rightarrow> Inr st
                | Some cur \<Rightarrow>
                    if cur = [] then Inr st
                    else (case content st cur of
                            None \<Rightarrow> Inl KeyError
                          | Some ls \<Rightarrow> Inr (st\<lparr>content := (content st)(cur \<mapsto> ls @ [stripped])\<rparr>))))"

fun scan_lines :: "scan \<Rightarrow> string list \<Rightarrow> error + scan" where
  "scan_lines st [] = Inr st"
| "scan_lines st (line # lines) =
     (case scan_line st line of
        Inl e \<Rightarrow> Inl e
      | Inr st' \<Rightarrow> scan_lines st' lines)"

definition scan_start :: scan where
  "scan_start = \<lparr>current_section = None, found = [], content = Map.empty\<rparr>"

text \<open>
  \<^verbatim>\<open>r'[A-Za-z0-9._%+-]+@[A-Za-z0-9.-]+\.[A-Za-z]{2,}'\<close> and \<^verbatim>\<open>r'\+?\d[\d\s-]{7,}'\<close>
\<close>

definition email_local :: "char \<Rightarrow> bool" where
  \<comment> \<open>\<^verbatim>\<open>[A-Za-z0-9._%+-]\<close>\<close>
  "email_local c = (isalpha_ascii c \<or> isdigit c \<or> c \<in> set ''._%+-'')"

definition email_domain :: "char \<Rightarrow> bool" where
  \<comment> \<open>\<^verbatim>\<open>[A-Za-z0-9.-]\<close>\<close>
  "email_domain c = (isalpha_ascii c \<or> isdigit c \<or> c \<in> set ''.-'')"

definition phone_tail :: "char \<Rightarrow> bool" where
  \<comment> \<open>\<^verbatim>\<open>[\d\s-]\<close>\<close>
  "phone_tail c = (isdigit c \<or> isspace c \<or> c = CHR ''-'')"

definition email_pattern :: regex where
  "email_pattern =
     seqs [plus email_local, lit CHR ''@'', plus email_domain, lit CHR ''.'', Rep isalpha_ascii 2 None]"

definition phone_pattern :: regex where
  "phone_pattern = seqs [Opt (lit CHR ''+''), Chr isdigit, Rep phone_tail 7 None]"

text \<open>
  \<^verbatim>\<open>[r'\bBSc\b', r'\bMSc\b', r'\bPhD\b', r'University', r'College']\<close> and
  \<^verbatim>\<open>[r'\bManager\b', r'\bEngineer\b', r'\bExperience\b', r'\bEmployment\b']\<close>, both
  used with \<^verbatim>\<open>re.IGNORECASE\<close>
\<close>

definition edu_patterns :: "regex list" where
  "edu_patterns = [word ''BSc'', word ''MSc'', word ''PhD'', istr ''University'', istr ''College'']"

definition exp_patterns :: "regex list" where
  "exp_patterns = [word ''Manager'', word ''Engineer'', word ''Experience'', word ''Employment'']"

definition skills_list :: "string list" where
  "skills_list = [''Python'', ''SQL'', ''Kubernetes'', ''Project Management'', ''Data Analysis'']"

definition findall_each :: "regex list \<Rightarrow> string \<Rightarrow> string list" where
  \<comment> \<open>\<^verbatim>\<open>for pat in patterns: out.extend(re.findall(pat, cv_text))\<close>\<close>
  "findall_each patterns cv_text = concat (map (\<lambda>pat. re_findall pat cv_text) patterns)"

definition cv_issues :: "string list \<Rightarrow> string list \<Rightarrow> string list" where
  "cv_issues sections contacts =
     (if ''Experience'' \<notin> set sections then [''Missing experience section''] else []) @
     (if ''Education'' \<notin> set sections then [''Missing education section''] else []) @
     (if contacts = [] then [''No contact information found''] else [])"

definition analyze_cv :: "string \<Rightarrow> error + cv_analysis" where
  "analyze_cv cv_text =
     (case scan_lines scan_start (str_splitlines cv_text) of
        Inl e \<Rightarrow> Inl e
      | Inr st \<Rightarrow>
          (let emails = re_findall email_pattern cv_text;
               phones = re_findall phone_pattern cv_text
           in Inr \<lparr>total_chars = int (length cv_text),
                   total_words = int (length (str_split cv_text)),
                   sections_found = found st,
                   skills_indicators = filter (\<lambda>skill. re_search (word skill) cv_text) skills_list,
                   experience_indicators = findall_each exp_patterns cv_text,
                   education_indicators = findall_each edu_patterns cv_text,
                   contact_info = emails @ phones,
                   potential_issues = cv_issues (found st) (emails @ phones),
                   sections_content = (\<lambda>section. map_option join_newline (content st section))\<rparr>))"

section \<open>\<^verbatim>\<open>cvf.py\<close>: \<^verbatim>\<open>analyze_cv_structure\<close>\<close>

text \<open>
  \<^verbatim>\<open>'Skills': r'(?i)(technical\s+)?skills?|competenc(ies|y)|technologies?'\<close>,
  \<^verbatim>\<open>'Experience': r'(?i)(work\s+|professional\s+)?experience|employment|career'\<close>,
  \<^verbatim>\<open>'Education': r'(?i)education|qualifications?|academic'\<close>,
  \<^verbatim>\<open>'Contact': r'(?i)contact|personal\s+info'\<close>,
  \<^verbatim>\<open>'Summary': r'(?i)summary|profile|objective'\<close>,
  \<^verbatim>\<open>'Projects': r'(?i)projects?|portfolio'\<close>.
  A section is found when \<^verbatim>\<open>re.findall(pattern, cv_text)\<close> is not empty, that is when
  the pattern matches anywhere in the text.
\<close>

definition structure_section_patterns :: "(string \<times> regex) list" where
  "structure_section_patterns =
     [(''Skills'',
         alts [seqs [Opt (Seq (istr ''technical'') (plus isspace)), istr ''skill'', Opt (ilit CHR ''s'')],
               Seq (istr ''competenc'') (Alt (istr ''ies'') (istr ''y'')),
               Seq (istr ''technologie'') (Opt (ilit CHR ''s''))]),
      (''Experience'',
         alts [Seq (Opt (Alt (Seq (istr ''work'') (plus isspace))
                             (Seq (istr ''professional'') (plus isspace))))
                   (istr ''experience''),
               istr ''employment'',
               istr ''career'']),
      (''Education'',
         alts [istr ''education'',
               Seq (istr ''qualification'') (Opt (ilit CHR ''s'')),
               istr ''academic'']),
      (''Contact'', alts [istr ''contact'', seqs [istr ''personal'', plus isspace, istr ''info'']]),
      (''Summary'', alts [istr ''summary'', istr ''profile'', istr ''objective'']),
      (''Projects'', alts [Seq (istr ''project'') (Opt (ilit CHR ''s'')), istr ''portfolio''])]"

text \<open>
  \<^verbatim>\<open>r'python|javascript|java|sql|html|css|react|angular|vue'\<close>,
  \<^verbatim>\<open>r'aws|azure|docker|kubernetes|git|linux'\<close>,
  \<^verbatim>\<open>r'machine learning|ai|data science|analytics'\<close>,
  \<^verbatim>\<open>r'project management|leadership|agile|scrum'\<close>
\<close>

definition skill_patterns :: "regex list" where
  "skill_patterns =
     [alts (map istr [''python'', ''javascript'', ''java'', ''sql'', ''html'', ''css'', ''react'',
                      ''angular'', ''vue'']),
      alts (map istr [''aws'', ''azure'', ''docker'', ''kubernetes'', ''git'', ''linux'']),
      alts (map istr [''machine learning'', ''ai'', ''data science'', ''analytics'']),
      alts (map istr [''project management'', ''leadership'', ''agile'', ''scrum''])]"

text \<open>
  \<^verbatim>\<open>r'\d+\+?\s+years?(?:\s+(?:of\s+)?experience)?'\<close>,
  \<^verbatim>\<open>r'(?:senior|junior|lead|principal|manager|director)'\<close>,
  \<^verbatim>\<open>r'\d{4}\s*[-x]\s*(?:\d{4}|present|current)'\<close>, where \<^verbatim>\<open>x\<close> is the en dash U+2013,
  a code point that no text of the model holds, and
  \<^verbatim>\<open>r'(?:january|february|march|april|may|june|july|august|september|october|november|december)\s+\d{4}'\<close>
\<close>

definition structure_exp_patterns :: "regex list" where
  "structure_exp_patterns =
     [seqs [plus isdigit, Opt (lit CHR ''+''), plus isspace, istr ''year'', Opt (ilit CHR ''s''),
            Opt (seqs [plus isspace, Opt (Seq (istr ''of'') (plus isspace)), istr ''experience''])],
      alts (map istr [''senior'', ''junior'', ''lead'', ''principal'', ''manager'', ''director'']),
      seqs [Rep isdigit 4 (Some 4), star isspace, lit CHR ''-'', star isspace,
            alts [Rep isdigit 4 (Some 4), istr ''present'', istr ''current'']],
      seqs [alts (map istr [''january'', ''february'', ''march'', ''april'', ''may'', ''june'', ''july'',
                            ''august'', ''september'', ''october'', ''november'', ''december'']),
            plus isspace, Rep isdigit 4 (Some 4)]]"

text \<open>
  \<^verbatim>\<open>r'(?:bachelor|master|phd|doctorate|degree)'\<close>,
  \<^verbatim>\<open>r'(?:university|college|institute|school)'\<close>,
  \<^verbatim>\<open>r'(?:bsc|msc|ba|ma|phd|mba)'\<close>, \<^verbatim>\<open>r'certified?|certification'\<close>
\<close>

definition structure_edu_patterns :: "regex list" where
  "structure_edu_patterns =
     [alts (map istr [''bachelor'', ''master'', ''phd'', ''doctorate'', ''degree'']),
      alts (map istr [''university'', ''college'', ''institute'', ''school'']),
      alts (map istr [''bsc'', ''msc'', ''ba'', ''ma'', ''phd'', ''mba'']),
      alts [Seq (istr ''certifie'') (Opt (ilit CHR ''d'')), istr ''certification'']]"

text \<open>
  \<^verbatim>\<open>r'[a-zA-Z0-9._%+-]+@[a-zA-Z0-9.-]+\.[a-zA-Z]{2,}'\<close>,
  \<^verbatim>\<open>r'\+?\d{1,3}[-.\s]?\d{1,4}[-.\s]?\d{1,4}[-.\s]?\d{1,9}'\<close>,
  \<^verbatim>\<open>r'linkedin\.com/in/[\w-]+'\<close>, \<^verbatim>\<open>r'github\.com/[\w-]+'\<close>
\<close>

definition phone_separator :: "char \<Rightarrow> bool" where
  \<comment> \<open>\<^verbatim>\<open>[-.\s]\<close>\<close>
  "phone_separator c = (c \<in> set ''-.'' \<or> isspace c)"

definition slug :: "char \<Rightarrow> bool" where
  \<comment> \<open>\<^verbatim>\<open>[\w-]\<close>\<close>
  "slug c = (isword c \<or> c = CHR ''-'')"

definition structure_phone_pattern :: regex where
  "structure_phone_pattern =
     seqs [Opt (lit CHR ''+''),
           Rep isdigit 1 (Some 3), Opt (Chr phone_separator),
           Rep isdigit 1 (Some 4), Opt (Chr phone_separator),
           Rep isdigit 1 (Some 4), Opt (Chr phone_separator),
           Rep isdigit 1 (Some 9)]"

definition linkedin_pattern :: regex where
  "linkedin_pattern = Seq (istr ''linkedin.com/in/'') (plus slug)"

definition github_pattern :: regex where
  "github_pattern = Seq (istr ''github.com/'') (plus slug)"

definition contact_patterns :: "regex list" where
  "contact_patterns = [email_pattern, structure_phone_pattern, linkedin_pattern, github_pattern]"

definition too_short :: string where
  "too_short = ''CV seems very short (less than 500 characters)''"

definition too_long :: string where
  "too_long = ''CV is quite long (over 10,000 characters) - consider summarizing''"

definition no_skills :: string where
  "no_skills = ''No clear technical skills found - make sure to list your skills clearly''"

definition no_experience :: string where
  "no_experience = ''No clear work experience found - include job titles and dates''"

definition no_headers :: string where
  "no_headers = ''No clear section headers found - consider adding section headers like '' @
     [CHR 0x27] @ ''SKILLS'' @ [CHR 0x27] @ '' and '' @ [CHR 0x27] @ ''EXPERIENCE'' @ [CHR 0x27]"

definition structure_issues :: "int \<Rightarrow> string list \<Rightarrow> string list \<Rightarrow> string list \<Rightarrow> string list" where
  "structure_issues chars skills experience sections =
     (if chars < 500 then [too_short] else []) @
     (if chars > 10000 then [too_long] else []) @
     (if skills = [] then [no_skills] else []) @
     (if experience = [] then [no_experience] else []) @
     (if ''Experience'' \<notin> set sections \<and> ''Skills'' \<notin> set sections then [no_headers] else [])"

text \<open>
  \<^verbatim>\<open>list(set(...))\<close> keeps one copy of each matched piece of text, in an order that
  Python leaves open; \<open>remdups\<close> fixes one.
\<close>

definition analyze_cv_structure :: "string \<Rightarrow> structure_analysis" where
  "analyze_cv_structure cv_text =
     (let sections = map fst (filter (\<lambda>(section, pattern). re_findall pattern cv_text \<noteq> [])
                                     structure_section_patterns);
          skills = remdups (findall_each skill_patterns cv_text);
          experience = findall_each structure_exp_patterns cv_text
      in \<lparr>total_chars = int (length cv_text),
          total_words = int (length (str_split cv_text)),
          sections_found = sections,
          skills_indicators = skills,
          experience_indicators = experience,
          education_indicators = findall_each structure_edu_patterns cv_text,
          contact_info = findall_each contact_patterns cv_text,
          potential_issues = structure_issues (int (length cv_text)) skills experience sections,
          total_lines = int (length (str_split_newline cv_text))\<rparr>)"

section \<open>What the specification says, in its own words\<close>

text \<open>
  The number of whitespace-delimited tokens of a text: a token starts at every character
  that is not whitespace and is the first of the text or follows whitespace.
\<close>

definition token_count :: "string \<Rightarrow> nat" where
  "token_count s =
     length (filter (\<lambda>i. \<not> isspace (s ! i) \<and> (i = 0 \<or> isspace (s ! (i - 1)))) [0..<length s])"

fun token_starts :: "bool \<Rightarrow> string \<Rightarrow> nat" where
  "token_starts b [] = 0"
| "token_starts b (c # cs) = (if \<not> isspace c \<and> b then 1 else 0) + token_starts (isspace c) cs"

lemma token_starts_index:
  "length (filter (\<lambda>i. \<not> isspace (s ! i) \<and> (if i = 0 then b else isspace (s ! (i - 1)))) [0..<length s])
     = token_starts b s"
proof (induction s arbitrary: b)
  case Nil
  then show ?case by simp
next
  case (Cons c cs)
  have upt: "[0..<length (c # cs)] = 0 # map Suc [0..<length cs]"
    by (simp add: upt_conv_Cons map_Suc_upt del: upt_Suc)
  have "length (filter (\<lambda>i. \<not> isspace ((c # cs) ! i) \<and> (if i = 0 then b else isspace ((c # cs) ! (i - 1))))
                 (map Suc [0..<length cs]))
      = length (filter (\<lambda>i. \<not> isspace (cs ! i) \<and> (if i = 0 then isspace c else isspace (cs ! (i - 1))))
                 [0..<length cs])"
    unfolding filter_map length_map
    by (rule arg_cong [where f = length], rule filter_cong) (auto simp: nth_Cons')
  also have "\<dots> = token_starts (isspace c) cs"
    by (rule Cons.IH)
  finally show ?case
    unfolding upt by simp
qed

lemma token_count_starts: "token_count s = token_starts True s"
proof -
  have "(\<lambda>i. \<not> isspace (s ! i) \<and> (i = 0 \<or> isspace (s ! (i - 1))))
      = (\<lambda>i. \<not> isspace (s ! i) \<and> (if i = 0 then True else isspace (s ! (i - 1))))"
    by auto
  then show ?thesis
    unfolding token_count_def by (simp only: token_starts_index)
qed

lemma token_starts_skip_space:
  "token_starts True (dropWhile isspace s) = token_starts True s"
  by (induction s) auto

lemma token_starts_skip_token:
  "token_starts True (dropWhile (\<lambda>x. \<not> isspace x) s) = token_starts False s"
  by (induction s) auto

lemma length_str_split: "length (str_split s) = token_starts True s"
proof (induction s rule: str_split.induct)
  case (1 s)
  show ?case
  proof (cases "dropWhile isspace s")
    case Nil
    have "token_starts True s = token_starts True (dropWhile isspace s)"
      by (simp only: token_starts_skip_space)
    also have "\<dots> = 0"
      unfolding Nil by simp
    finally have "token_starts True s = 0" .
    moreover have "str_split s = []"
      unfolding str_split.simps [of s] Nil by simp
    ultimately show ?thesis by simp
  next
    case (Cons c cs)
    then have "\<not> isspace c"
      by (metis hd_dropWhile list.sel(1) list.distinct(1))
    have "length (str_split s) = Suc (length (str_split (dropWhile (\<lambda>x. \<not> isspace x) cs)))"
      unfolding str_split.simps [of s] Cons by simp
    also have "\<dots> = Suc (token_starts False cs)"
      using "1.IH" [OF Cons] by (simp add: token_starts_skip_token)
    also have "\<dots> = token_starts True (c # cs)"
      using \<open>\<not> isspace c\<close> by simp
    also have "\<dots> = token_starts True s"
      unfolding Cons [symmetric] by (simp only: token_starts_skip_space)
    finally show ?thesis .
  qed
qed

lemma str_split_count: "length (str_split s) = token_count s"
  by (simp add: length_str_split token_count_starts)

text \<open>
  A term occurs in a text as a whole word, whatever the case of its letters: the text has
  it at some place, letter for letter up to case, with no word character right before it
  and none right after it.
\<close>

definition occurs_at :: "string \<Rightarrow> string \<Rightarrow> nat \<Rightarrow> bool" where
  "occurs_at w text i =
     (i + length w \<le> length text \<and>
      map lower (take (length w) (drop i text)) = map lower w \<and>
      \<not> (0 < i \<and> isword (text ! (i - 1))) \<and>
      \<not> (i + length w < length text \<and> isword (text ! (i + length w))))"

definition whole_word :: "string \<Rightarrow> string \<Rightarrow> bool" where
  "whole_word w text = list_ex (occurs_at w text) [0..<Suc (length text)]"

lemmas char_eval = ord_def isspace_def isdigit_def isalpha_ascii_def isword_def is_linebreak_def lower_def newline_def
  same_letter_def email_local_def email_domain_def phone_tail_def phone_separator_def slug_def
lemmas regex_eval = re_fullmatch_def re_search_def lit_def ilit_def plus_def star_def word_def at_boundary_def

definition header_line :: "string \<Rightarrow> string option" where
  "header_line line = (if str_strip line = [] then None else header_of (str_strip line))"

definition open_section :: "string list \<Rightarrow> string option" where
  "open_section lines =
     (case List.map_filter header_line lines of [] \<Rightarrow> None | h # hs \<Rightarrow> Some (last (h # hs)))"

lemma header_of_names:
  assumes "header_of s = Some name"
  shows "name \<in> {''Experience'', ''Education'', ''Skills''}"
proof -
  from assms obtain pattern
    where "find (\<lambda>(section, pattern). re_fullmatch pattern s) section_patterns = Some (name, pattern)"
    by (auto simp: header_of_def)
  then have "(name, pattern) \<in> set section_patterns"
    by (metis find_Some_iff nth_mem)
  then show ?thesis
    by (auto simp: section_patterns_def)
qed

lemma scan_line_blank:
  "str_strip line = [] \<Longrightarrow> scan_line st line = Inr st"
  by (simp add: scan_line_def)

lemma scan_line_header:
  "header_line line = Some section \<Longrightarrow>
   scan_line st line = Inr (st\<lparr>current_section := Some section, found := found st @ [section],
                               content := (content st)(section \<mapsto> [])\<rparr>)"
  by (auto simp: scan_line_def header_line_def split: if_splits)

lemma scan_line_body_closed:
  "header_line line = None \<Longrightarrow> current_section st = None \<Longrightarrow> scan_line st line = Inr st"
  by (auto simp: scan_line_def header_line_def Let_def split: if_splits)

lemma scan_line_body_open:
  "header_line line = None \<Longrightarrow> str_strip line \<noteq> [] \<Longrightarrow> current_section st = Some cur \<Longrightarrow>
   cur \<noteq> [] \<Longrightarrow> content st cur = Some ls \<Longrightarrow>
   scan_line st line = Inr (st\<lparr>content := (content st)(cur \<mapsto> ls @ [str_strip line])\<rparr>)"
  by (auto simp: scan_line_def header_line_def Let_def split: if_splits)

definition scan_inv :: "scan \<Rightarrow> bool" where
  "scan_inv st =
     ((case current_section st of None \<Rightarrow> True | Some cur \<Rightarrow> cur \<noteq> [] \<and> cur \<in> dom (content st)) \<and>
      dom (content st) = set (found st))"

lemma scan_line_inv:
  assumes "scan_inv st"
  shows "\<exists>st'. scan_line st line = Inr st' \<and> scan_inv st'"
proof (cases "header_line line")
  case (Some name)
  then have "name \<noteq> []"
    using header_of_names [of "str_strip line" name]
    by (auto simp: header_line_def split: if_splits)
  with assms show ?thesis
    by (auto simp: scan_line_header [OF Some] scan_inv_def)
next
  case None
  show ?thesis
  proof (cases "str_strip line = [] \<or> current_section st = None")
    case True
    with None assms show ?thesis
      by (auto simp: scan_line_blank scan_line_body_closed)
  next
    case False
    then obtain cur where cur: "current_section st = Some cur" and "str_strip line \<noteq> []"
      by auto
    with assms obtain ls where "cur \<noteq> []" and "content st cur = Some ls"
      by (auto simp: scan_inv_def)
    with None cur \<open>str_strip line \<noteq> []\<close> assms show ?thesis
      by (auto simp: scan_line_body_open scan_inv_def)
  qed
qed

lemma scan_lines_inv:
  "scan_inv st \<Longrightarrow> \<exists>st'. scan_lines st lines = Inr st' \<and> scan_inv st'"
proof (induction lines arbitrary: st)
  case Nil
  then show ?case by simp
next
  case (Cons line lines)
  from scan_line_inv [OF Cons.prems] obtain st1
    where "scan_line st line = Inr st1" and "scan_inv st1" by blast
  with Cons.IH [of st1] show ?case by simp
qed

lemma scan_start_inv: "scan_inv scan_start"
  by (simp add: scan_inv_def scan_start_def)

lemma scan_lines_append:
  "scan_lines st (xs @ ys) =
     (case scan_lines st xs of Inl e \<Rightarrow> Inl e | Inr st' \<Rightarrow> scan_lines st' ys)"
  by (induction xs arbitrary: st) (auto split: sum.splits)

lemma scan_line_found:
  assumes "scan_line st line = Inr st'"
  shows "found st' = found st @ List.map_filter header_line [line]"
    and "current_section st' = (case header_line line of None \<Rightarrow> current_section st | Some h \<Rightarrow> Some h)"
  using assms
  by (auto simp: scan_line_def header_line_def Let_def List.map_filter_simps
           split: if_splits option.splits)

lemma scan_lines_found:
  "scan_lines st lines = Inr st' \<Longrightarrow> found st' = found st @ List.map_filter header_line lines"
proof (induction lines arbitrary: st)
  case Nil
  then show ?case by (simp add: List.map_filter_simps)
next
  case (Cons line lines)
  then obtain st1 where 1: "scan_line st line = Inr st1" and 2: "scan_lines st1 lines = Inr st'"
    by (auto split: sum.splits)
  from Cons.IH [OF 2] scan_line_found(1) [OF 1] show ?case
    by (simp add: List.map_filter_simps split: option.splits)
qed

lemma scan_lines_current:
  "scan_lines st lines = Inr st' \<Longrightarrow>
   current_section st' = (case open_section lines of None \<Rightarrow> current_section st | Some h \<Rightarrow> Some h)"
proof (induction lines arbitrary: st)
  case Nil
  then show ?case by (simp add: open_section_def List.map_filter_simps)
next
  case (Cons line lines)
  then obtain st1 where 1: "scan_line st line = Inr st1" and 2: "scan_lines st1 lines = Inr st'"
    by (auto split: sum.splits)
  from Cons.IH [OF 2] scan_line_found(2) [OF 1] show ?case
    by (auto simp: open_section_def List.map_filter_simps split: option.splits list.splits)
qed

lemma scan_lines_no_header:
  assumes "List.map_filter header_line lines = []" and "current_section st = None"
  shows "scan_lines st lines = Inr st"
  using assms
proof (induction lines)
  case Nil
  then show ?case by simp
next
  case (Cons line lines)
  then have "header_line line = None" and "List.map_filter header_line lines = []"
    by (auto simp: List.map_filter_simps split: option.splits)
  with Cons show ?case
    by (simp add: scan_line_body_closed)
qed

lemma scan_line_keeps:
  assumes "scan_inv st" and "scan_line st line = Inr st'"
    and "content st section = Some ls" and "header_line line \<noteq> Some section"
  shows "\<exists>ls'. content st' section = Some (ls @ ls')"
proof (cases "header_line line")
  case (Some other)
  with assms show ?thesis
    by (auto simp: scan_line_header)
next
  case None
  show ?thesis
  proof (cases "str_strip line = [] \<or> current_section st = None")
    case True
    with None assms show ?thesis
      by (auto simp: scan_line_blank scan_line_body_closed)
  next
    case False
    then obtain cur where cur: "current_section st = Some cur" and "str_strip line \<noteq> []"
      by auto
    with assms obtain ms where "cur \<noteq> []" and "content st cur = Some ms"
      by (auto simp: scan_inv_def)
    with None cur \<open>str_strip line \<noteq> []\<close> assms show ?thesis
      by (auto simp: scan_line_body_open)
  qed
qed

lemma scan_lines_keeps:
  assumes "scan_inv st" and "scan_lines st lines = Inr st'"
    and "content st section = Some ls" and "section \<notin> set (List.map_filter header_line lines)"
  shows "\<exists>ls'. content st' section = Some (ls @ ls')"
  using assms
proof (induction lines arbitrary: st ls)
  case Nil
  then show ?case by simp
next
  case (Cons line lines)
  from Cons.prems(2) obtain st1 where 1: "scan_line st line = Inr st1" and 2: "scan_lines st1 lines = Inr st'"
    by (auto split: sum.splits)
  from Cons.prems(4) have nh: "header_line line \<noteq> Some section"
    and rest: "section \<notin> set (List.map_filter header_line lines)"
    by (auto simp: List.map_filter_simps split: option.splits)
  from scan_line_inv [OF Cons.prems(1), of line] 1 have inv1: "scan_inv st1"
    by simp
  from scan_line_keeps [OF Cons.prems(1) 1 Cons.prems(3) nh] obtain ls1
    where "content st1 section = Some (ls @ ls1)" by blast
  from Cons.IH [OF inv1 2 this rest] show ?case
    by auto
qed

lemma scan_total:
  "\<exists>st. scan_lines scan_start (str_splitlines cv_text) = Inr st \<and> scan_inv st"
  using scan_lines_inv [OF scan_start_inv] .

lemma analyze_cv_returns:
  "\<exists>st. scan_lines scan_start (str_splitlines cv_text) = Inr st \<and> scan_inv st \<and>
        analyze_cv cv_text =
          Inr \<lparr>total_chars = int (length cv_text),
               total_words = int (length (str_split cv_text)),
               sections_found = found st,
               skills_indicators = filter (\<lambda>skill. re_search (word skill) cv_text) skills_list,
               experience_indicators = findall_each exp_patterns cv_text,
               education_indicators = findall_each edu_patterns cv_text,
               contact_info = re_findall email_pattern cv_text @ re_findall phone_pattern cv_text,
               potential_issues =
                 cv_issues (found st) (re_findall email_pattern cv_text @ re_findall phone_pattern cv_text),
               sections_content = (\<lambda>section. map_option join_newline (content st section))\<rparr>"
proof -
  from scan_total obtain st
    where "scan_lines scan_start (str_splitlines cv_text) = Inr st" and "scan_inv st"
    by blast
  then show ?thesis
    by (simp add: analyze_cv_def Let_def)
qed

lemma analyze_cv_sections:
  "\<exists>r st. analyze_cv cv_text = Inr r \<and> scan_lines scan_start (str_splitlines cv_text) = Inr st \<and>
          scan_inv st \<and> sections_found r = found st \<and>
          sections_content r = (\<lambda>name. map_option join_newline (content st name))"
  using analyze_cv_returns [of cv_text] by force

lemma body_line_kept:
  assumes lines: "scan_lines scan_start (before @ line # rest) = Inr st"
    and body: "header_line line = None" "str_strip line \<noteq> []"
    and "open_section before = Some name"
    and later: "name \<notin> set (List.map_filter header_line rest)"
  shows "\<exists>body. content st name = Some body \<and> str_strip line \<in> set body"
proof -
  from scan_lines_inv [OF scan_start_inv, of before] obtain st1
    where 1: "scan_lines scan_start before = Inr st1" and inv1: "scan_inv st1"
    by blast
  from scan_lines_current [OF 1] \<open>open_section before = Some name\<close>
  have cur: "current_section st1 = Some name"
    by simp
  with inv1 obtain ls where "name \<noteq> []" and ls: "content st1 name = Some ls"
    by (auto simp: scan_inv_def)
  with body cur
  have 2: "scan_line st1 line = Inr (st1\<lparr>content := (content st1)(name \<mapsto> ls @ [str_strip line])\<rparr>)"
    (is "_ = Inr ?st2")
    by (simp add: scan_line_body_open)
  from scan_line_inv [OF inv1, of line] 2 have inv2: "scan_inv ?st2"
    by simp
  from lines 1 2 have 3: "scan_lines ?st2 rest = Inr st"
    by (simp add: scan_lines_append)
  have "content ?st2 name = Some (ls @ [str_strip line])"
    by simp
  from scan_lines_keeps [OF inv2 3 this later] show ?thesis
    by auto
qed

lemma not_a_header: "header_of ''My Skills are strong'' = None"
  by (simp add: header_of_def section_patterns_def char_eval regex_eval)

lemma header_line_iff:
  "header_line line \<noteq> None \<longleftrightarrow>
     str_strip line \<noteq> [] \<and>
     list_ex (\<lambda>(name, pattern). re_fullmatch pattern (str_strip line)) section_patterns"
proof -
  have "header_of s \<noteq> None \<longleftrightarrow>
        list_ex (\<lambda>(name, pattern). re_fullmatch pattern s) section_patterns" for s
    unfolding header_of_def list_ex_iff by (simp add: find_None_iff Bex_def)
  then show ?thesis
    by (simp add: header_line_def)
qed

lemma findall_nomatch:
  "matches r (prev, c # cs) = [] \<Longrightarrow>
   findall_from r must_advance (prev, c # cs) = findall_from r False (Some c, cs)"
  "matches r (prev, []) = [] \<Longrightarrow> findall_from r must_advance (prev, []) = []"
  by (subst findall_from.simps, simp)+

lemma findall_match:
  assumes "matches r (prev, s) \<noteq> []"
    and "length (snd (hd (matches r (prev, s)))) < length s"
  shows "findall_from r False (prev, s) =
           take (length s - length (snd (hd (matches r (prev, s))))) s #
           findall_from r False (hd (matches r (prev, s)))"
proof -
  from assms(1) obtain e es where "matches r (prev, s) = e # es"
    by (cases "matches r (prev, s)") auto
  with assms(2) show ?thesis
    by (subst findall_from.simps) simp
qed

lemma findall_nonempty:
  "findall_from r False cur \<noteq> [] \<longleftrightarrow> search_from r (fst cur) (snd cur)"
proof (induction "snd cur" arbitrary: cur)
  case Nil
  then obtain prev where cur: "cur = (prev, [])"
    by (cases cur) auto
  show ?case
    unfolding cur by (subst findall_from.simps) (simp split: list.splits)
next
  case (Cons c cs)
  then obtain prev where cur: "cur = (prev, c # cs)"
    by (cases cur) auto
  from Cons(1) [of "(Some c, cs)"]
  have "findall_from r False (Some c, cs) \<noteq> [] \<longleftrightarrow> search_from r (Some c) cs"
    by simp
  then show ?case
    unfolding cur by (subst findall_from.simps) (simp split: list.splits)
qed

lemma re_findall_nonempty: "re_findall r s \<noteq> [] \<longleftrightarrow> re_search r s"
  by (simp add: re_findall_def re_search_def findall_nonempty)

lemma structure_sections:
  "sections_found (analyze_cv_structure cv_text) =
     map fst (filter (\<lambda>(name, pattern). re_search pattern cv_text) structure_section_patterns)"
  by (simp add: analyze_cv_structure_def Let_def re_findall_nonempty)

lemmas scan_eval = scan_start_def scan_line_def Let_def str_strip_def str_splitlines_def
  header_of_def section_patterns_def char_eval regex_eval

lemma isword_lower: "isword (lower c) = isword c"
proof (cases c)
  case (Char b0 b1 b2 b3 b4 b5 b6 b7)
  show ?thesis
    unfolding Char
    by (cases b0; cases b1; cases b2; cases b3; cases b4; cases b5; cases b6; cases b7;
        simp add: char_eval)
qed

lemma advance_snd: "snd (advance k (prev, s)) = drop k s"
  by (induction k "(prev, s)" arbitrary: prev s rule: advance.induct) auto

lemma advance_fst:
  "k \<le> length s \<Longrightarrow> fst (advance k (prev, s)) = (if k = 0 then prev else Some (s ! (k - 1)))"
proof (induction k "(prev, s)" arbitrary: prev s rule: advance.induct)
  case (3 k prev c cs)
  then show ?case by (cases k) auto
qed auto

lemma advance_end: "advance k (prev, []) = (prev, [])"
  by (cases k) auto

lemma advance_add: "advance k (advance i cur) = advance (i + k) cur"
proof (induction i cur rule: advance.induct)
  case (2 i prev)
  then show ?case by (simp add: advance_end)
qed auto

lemma advance_pair:
  "k \<le> length s \<Longrightarrow> advance k (prev, s) = (if k = 0 then prev else Some (s ! (k - 1)), drop k s)"
  by (simp add: prod_eq_iff advance_fst advance_snd)

lemma matches_istr:
  "matches (istr w) (prev, s) =
     (if length w \<le> length s \<and> map lower (take (length w) s) = map lower w
      then [advance (length w) (prev, s)] else [])"
proof (induction w arbitrary: prev s)
  case Nil
  then show ?case by simp
next
  case (Cons c w)
  show ?case
  proof (cases s)
    case Nil
    then show ?thesis by (simp add: ilit_def)
  next
    case (Cons x xs)
    then show ?thesis
      by (auto simp: ilit_def same_letter_def Cons.IH)
  qed
qed

lemma matches_word_eq:
  "matches (word w) cur =
     (if at_boundary cur \<and> length w \<le> length (snd cur) \<and>
         map lower (take (length w) (snd cur)) = map lower w \<and>
         at_boundary (advance (length w) cur)
      then [advance (length w) cur] else [])"
  by (cases cur) (simp add: word_def matches_istr)

lemma matches_word:
  "matches (word w) cur \<noteq> [] \<longleftrightarrow>
     at_boundary cur \<and> length w \<le> length (snd cur) \<and>
     map lower (take (length w) (snd cur)) = map lower w \<and>
     at_boundary (advance (length w) cur)"
  by (simp add: matches_word_eq)

lemma search_from_iff:
  "search_from r prev s \<longleftrightarrow> (\<exists>i\<le>length s. matches r (advance i (prev, s)) \<noteq> [])"
proof (induction s arbitrary: prev)
  case Nil
  then show ?case by simp
next
  case (Cons c cs)
  have "(\<exists>i\<le>length (c # cs). matches r (advance i (prev, c # cs)) \<noteq> []) \<longleftrightarrow>
        matches r (prev, c # cs) \<noteq> [] \<or> (\<exists>j\<le>length cs. matches r (advance j (Some c, cs)) \<noteq> [])"
    (is "?L \<longleftrightarrow> ?R")
  proof
    assume ?L
    then obtain i where i: "i \<le> length (c # cs)" "matches r (advance i (prev, c # cs)) \<noteq> []"
      by blast
    then show ?R
      by (cases i) auto
  next
    assume ?R
    then show ?L
    proof
      assume "matches r (prev, c # cs) \<noteq> []"
      then have "matches r (advance 0 (prev, c # cs)) \<noteq> []" by simp
      then show ?L by blast
    next
      assume "\<exists>j\<le>length cs. matches r (advance j (Some c, cs)) \<noteq> []"
      then obtain j where "j \<le> length cs" "matches r (advance (Suc j) (prev, c # cs)) \<noteq> []"
        by auto
      then have "Suc j \<le> length (c # cs)" by simp
      with \<open>matches r (advance (Suc j) (prev, c # cs)) \<noteq> []\<close> show ?L by blast
    qed
  qed
  with Cons.IH [of "Some c"] show ?case
    by simp
qed

lemma boundary_at:
  assumes "i \<le> length text"
  shows "at_boundary (advance i (None, text)) \<longleftrightarrow>
         ((0 < i \<and> isword (text ! (i - 1))) \<noteq> (i < length text \<and> isword (text ! i)))"
proof -
  have "snd (advance i (None, text)) = drop i text"
    by (rule advance_snd)
  moreover have "fst (advance i (None, text)) = (if i = 0 then None else Some (text ! (i - 1)))"
    using assms by (rule advance_fst)
  moreover have "(case drop i text of [] \<Rightarrow> False | c # _ \<Rightarrow> isword c) = (i < length text \<and> isword (text ! i))"
  proof (cases "i < length text")
    case True
    then have "drop i text = text ! i # drop (Suc i) text"
      by (simp add: Cons_nth_drop_Suc)
    with True show ?thesis by simp
  next
    case False
    then show ?thesis by simp
  qed
  ultimately show ?thesis
    by (auto simp: at_boundary_def)
qed

lemma same_letters_nth:
  assumes "map lower (take n (drop i text)) = map lower w" and "n = length w"
    and "i + n \<le> length text" and "k < n"
  shows "lower (text ! (i + k)) = lower (w ! k)"
proof -
  from assms have "map lower (take n (drop i text)) ! k = map lower w ! k"
    by simp
  moreover from assms have "k < length (take n (drop i text))"
    by simp
  ultimately have "lower (take n (drop i text) ! k) = lower (w ! k)"
    using assms by (simp del: take_drop)
  with assms show ?thesis
    by simp
qed

lemma word_match_at:
  assumes w: "w \<noteq> []" "isword (hd w)" "isword (last w)" and i: "i \<le> length text"
  shows "matches (word w) (advance i (None, text)) \<noteq> [] \<longleftrightarrow> occurs_at w text i"
proof -
  let ?fit = "i + length w \<le> length text"
  let ?same = "map lower (take (length w) (drop i text)) = map lower w"
  let ?start = "at_boundary (advance i (None, text))"
  let ?stop = "at_boundary (advance (i + length w) (None, text))"
  have room: "length w \<le> length (drop i text) \<longleftrightarrow> ?fit"
    using i by auto
  have engine: "matches (word w) (advance i (None, text)) \<noteq> [] \<longleftrightarrow>
      ?start \<and> ?fit \<and> ?same \<and> ?stop"
    unfolding matches_word advance_add advance_snd room ..
  show ?thesis
  proof (cases "?fit \<and> ?same")
    case False
    then have "\<not> occurs_at w text i"
      unfolding occurs_at_def by blast
    with False engine show ?thesis
      by blast
  next
    case True
    then have fit: ?fit and same: ?same
      by blast+
    from w have len: "0 < length w"
      by simp
    from fit len have inside: "i < length text"
      by linarith
    have "lower (text ! (i + 0)) = lower (w ! 0)"
      using same_letters_nth [OF same refl fit len] .
    moreover have "w ! 0 = hd w"
      using w(1) by (simp add: hd_conv_nth)
    ultimately have "lower (text ! i) = lower (hd w)"
      by simp
    then have "isword (lower (text ! i)) = isword (lower (hd w))"
      by (rule arg_cong)
    with w have first: "isword (text ! i)"
      by (simp only: isword_lower)
    from len have "length w - 1 < length w"
      by linarith
    from same_letters_nth [OF same refl fit this]
    have "lower (text ! (i + (length w - 1))) = lower (w ! (length w - 1))" .
    moreover have "w ! (length w - 1) = last w"
      using w(1) by (simp add: last_conv_nth)
    moreover from len have "i + (length w - 1) = i + length w - 1"
      by linarith
    ultimately have "lower (text ! (i + length w - 1)) = lower (last w)"
      by simp
    then have "isword (lower (text ! (i + length w - 1))) = isword (lower (last w))"
      by (rule arg_cong)
    with w have last: "isword (text ! (i + length w - 1))"
      by (simp only: isword_lower)
    from len have pos: "0 < i + length w"
      by linarith
    have start: "?start \<longleftrightarrow> \<not> (0 < i \<and> isword (text ! (i - 1)))"
      unfolding boundary_at [OF i] using first inside by blast
    have stop: "?stop \<longleftrightarrow> \<not> (i + length w < length text \<and> isword (text ! (i + length w)))"
      unfolding boundary_at [OF fit] using last pos by blast
    show ?thesis
      unfolding engine occurs_at_def start stop by blast
  qed
qed

lemma search_word:
  assumes "w \<noteq> []" "isword (hd w)" "isword (last w)"
  shows "re_search (word w) text \<longleftrightarrow> whole_word w text"
proof -
  have "re_search (word w) text \<longleftrightarrow> (\<exists>i\<le>length text. matches (word w) (advance i (None, text)) \<noteq> [])"
    by (simp add: re_search_def search_from_iff)
  also have "\<dots> \<longleftrightarrow> (\<exists>i\<le>length text. occurs_at w text i)"
    using word_match_at [OF assms] by blast
  also have "\<dots> \<longleftrightarrow> whole_word w text"
  proof -
    have "set [0..<Suc (length text)] = {i. i \<le> length text}"
      by auto
    then show ?thesis
      unfolding whole_word_def list_ex_iff by blast
  qed
  finally show ?thesis .
qed

lemmas findall_eval = re_findall_def findall_each_def findall_nomatch findall_match char_eval regex_eval

lemma skills_list_words:
  "skill \<in> set skills_list \<Longrightarrow> skill \<noteq> [] \<and> isword (hd skill) \<and> isword (last skill)"
  by (auto simp: skills_list_def char_eval)

lemma skills_list_distinct: "distinct skills_list"
  by (simp add: skills_list_def)

lemma count_filter_distinct:
  "distinct xs \<Longrightarrow> count_list (filter P xs) x = (if x \<in> set xs \<and> P x then 1 else 0)"
  by (induction xs) auto

lemma structure_contact:
  "contact_info (analyze_cv_structure cv_text) =
     re_findall email_pattern cv_text @ re_findall structure_phone_pattern cv_text @
     re_findall linkedin_pattern cv_text @ re_findall github_pattern cv_text"
  by (simp add: analyze_cv_structure_def Let_def findall_each_def contact_patterns_def)

lemma example_emails:
  "re_findall email_pattern ''Contact: a@b.com, phone 123-456-7890'' = [''a@b.com'']"
  by (simp add: email_pattern_def findall_eval)

lemma example_phones:
  "re_findall phone_pattern ''Contact: a@b.com, phone 123-456-7890'' = [''123-456-7890'']"
  by (simp add: phone_pattern_def findall_eval)

lemma example_structure_phones:
  "re_findall structure_phone_pattern ''Contact: a@b.com, phone 123-456-7890'' = [''123-456-7890'']"
  by (simp add: structure_phone_pattern_def findall_eval)

lemma example_linkedin:
  "re_findall linkedin_pattern ''Contact: a@b.com, phone 123-456-7890'' = []"
  by (simp add: linkedin_pattern_def findall_eval)

lemma example_github:
  "re_findall github_pattern ''Contact: a@b.com, phone 123-456-7890'' = []"
  by (simp add: github_pattern_def findall_eval)

lemma issue_texts_differ:
  "too_short \<noteq> too_long" "too_short \<noteq> no_skills" "too_short \<noteq> no_experience"
  "too_short \<noteq> no_headers" "too_long \<noteq> no_skills" "too_long \<noteq> no_experience"
  "too_long \<noteq> no_headers"
  by (simp_all add: too_short_def too_long_def no_skills_def no_experience_def no_headers_def)

section \<open>The claims\<close>

text \<open>
  C1. Two separate blocks headed \<^verbatim>\<open>Experience\<close>. The record has one entry for
  \<^verbatim>\<open>Experience\<close> in \<^verbatim>\<open>sections_content\<close>, and \<^verbatim>\<open>sections_found\<close> lists the name
  twice. The entry does not hold the lines of both blocks: line 37 of \<^verbatim>\<open>rep.py\<close> stores a
  new empty list at every header line, also when the section has been met before, so only
  the lines of the last block remain. Here \<^verbatim>\<open>Job A\<close> is lost.
\<close>

theorem repeated_header_restarts:
  "\<exists>r. analyze_cv (join_newline [''Experience'', ''Job A'', ''Education'', ''BSc'', ''Experience'', ''Job B''])
          = Inr r \<and>
        sections_found r = [''Experience'', ''Education'', ''Experience''] \<and>
        sections_content r ''Experience'' = Some ''Job B'' \<and>
        sections_content r ''Education'' = Some ''BSc''"
proof -
  let ?text = "join_newline [''Experience'', ''Job A'', ''Education'', ''BSc'', ''Experience'', ''Job B'']"
  from analyze_cv_sections [of ?text] obtain r st
    where r: "analyze_cv ?text = Inr r" and st: "scan_lines scan_start (str_splitlines ?text) = Inr st"
      and f: "sections_found r = found st"
      and c: "sections_content r = (\<lambda>name. map_option join_newline (content st name))"
    by blast
  from st have "found st = [''Experience'', ''Education'', ''Experience'']"
    and "content st ''Experience'' = Some [''Job B'']"
    and "content st ''Education'' = Some [''BSc'']"
    by (auto simp: scan_eval)
  with r f c show ?thesis
    by simp
qed

text \<open>
  C2. In \<^verbatim>\<open>analyze_cv\<close>, \<^verbatim>\<open>sections_found\<close> has one element for each line that is a header
  line, in the order of the lines, and none for any other line; a line is a header line
  exactly when it is not blank and one of the section patterns matches the whole of the
  stripped line. No line that strips to \<^verbatim>\<open>My Skills are strong\<close> is a header line. A line
  that is not blank and not a header, met while a section is open, is in the text of that
  section, stripped, when no header line of the same section comes after it.
\<close>

theorem header_lines:
  "\<exists>r. analyze_cv cv_text = Inr r \<and>
        sections_found r = List.map_filter header_line (str_splitlines cv_text) \<and>
        (\<forall>line. header_line line \<noteq> None \<longleftrightarrow>
                 str_strip line \<noteq> [] \<and>
                 list_ex (\<lambda>(name, pattern). re_fullmatch pattern (str_strip line)) section_patterns) \<and>
        (\<forall>line. str_strip line = ''My Skills are strong'' \<longrightarrow> header_line line = None) \<and>
        (\<forall>before line rest name.
           str_splitlines cv_text = before @ line # rest \<and>
           header_line line = None \<and> str_strip line \<noteq> [] \<and>
           open_section before = Some name \<and>
           name \<notin> set (List.map_filter header_line rest) \<longrightarrow>
           (\<exists>body. sections_content r name = Some (join_newline body) \<and> str_strip line \<in> set body))"
proof -
  from analyze_cv_sections [of cv_text] obtain r st
    where r: "analyze_cv cv_text = Inr r"
      and st: "scan_lines scan_start (str_splitlines cv_text) = Inr st"
      and f: "sections_found r = found st"
      and c: "sections_content r = (\<lambda>name. map_option join_newline (content st name))"
    by blast
  from scan_lines_found [OF st]
  have "sections_found r = List.map_filter header_line (str_splitlines cv_text)"
    by (simp add: f scan_start_def)
  moreover have "header_line line = None" if "str_strip line = ''My Skills are strong''" for line
    using that by (simp add: header_line_def not_a_header)
  moreover have "\<exists>body. sections_content r name = Some (join_newline body) \<and> str_strip line \<in> set body"
    if "str_splitlines cv_text = before @ line # rest"
      and "header_line line = None" and "str_strip line \<noteq> []"
      and "open_section before = Some name"
      and "name \<notin> set (List.map_filter header_line rest)"
    for before line rest name
  proof -
    from st that(1) have "scan_lines scan_start (before @ line # rest) = Inr st"
      by simp
    from body_line_kept [OF this that(2-5)] show ?thesis
      by (auto simp: c)
  qed
  ultimately show ?thesis
    using r header_line_iff by blast
qed

text \<open>An instance: the line sits under \<^verbatim>\<open>Education\<close>, with blanks around it.\<close>

theorem header_lines_witness:
  "\<exists>r. analyze_cv (join_newline [''Education'', ''  My Skills are strong '', ''BSc'']) = Inr r \<and>
        sections_found r = [''Education''] \<and>
        (\<exists>body. sections_content r ''Education'' = Some (join_newline body) \<and>
                ''My Skills are strong'' \<in> set body)"
proof -
  let ?text = "join_newline [''Education'', ''  My Skills are strong '', ''BSc'']"
  have lines: "str_splitlines ?text = [''Education''] @ ''  My Skills are strong '' # [''BSc'']"
    by (simp add: str_splitlines_def char_eval)
  have strip: "str_strip ''  My Skills are strong '' = ''My Skills are strong''"
    by (simp add: str_strip_def char_eval)
  have headers: "header_line ''Education'' = Some ''Education''" "header_line ''BSc'' = None"
    by (simp_all add: header_line_def scan_eval)
  from header_lines [of ?text] obtain r where r: "analyze_cv ?text = Inr r"
    and found: "sections_found r = List.map_filter header_line (str_splitlines ?text)"
    and no: "\<forall>line. str_strip line = ''My Skills are strong'' \<longrightarrow> header_line line = None"
    and kept: "\<forall>before line rest name.
           str_splitlines ?text = before @ line # rest \<and>
           header_line line = None \<and> str_strip line \<noteq> [] \<and>
           open_section before = Some name \<and>
           name \<notin> set (List.map_filter header_line rest) \<longrightarrow>
           (\<exists>body. sections_content r name = Some (join_newline body) \<and> str_strip line \<in> set body)"
    by blast
  from no strip have line: "header_line ''  My Skills are strong '' = None"
    by blast
  have "open_section [''Education''] = Some ''Education''"
    by (simp add: open_section_def headers List.map_filter_simps)
  moreover have "''Education'' \<notin> set (List.map_filter header_line [''BSc''])"
    by (simp add: headers List.map_filter_simps)
  ultimately have "\<exists>body. sections_content r ''Education'' = Some (join_newline body) \<and>
      str_strip ''  My Skills are strong '' \<in> set body"
    using kept [rule_format, of "[''Education'']" "''  My Skills are strong ''" "[''BSc'']" "''Education''"]
      lines line strip
    by simp
  moreover from found have "sections_found r = [''Education'']"
    by (simp only: lines) (simp add: headers line List.map_filter_simps)
  ultimately show ?thesis
    using r strip by auto
qed

text \<open>
  \<^verbatim>\<open>analyze_cv_structure\<close> of \<^verbatim>\<open>cvf.py\<close> has no lines: it looks for each pattern anywhere
  in the text (line 50), and so finds \<^verbatim>\<open>Skills\<close> in this one.
\<close>

theorem structure_substring_header:
  "sections_found (analyze_cv_structure ''My Skills are strong'') = [''Skills'']"
  by (simp add: structure_sections structure_section_patterns_def char_eval regex_eval)

text \<open>
  C3. For every text, in both scripts, \<^verbatim>\<open>total_chars\<close> is the length of the text and
  \<^verbatim>\<open>total_words\<close> is the number of its whitespace-delimited tokens; neither is
  negative; \<^verbatim>\<open>analyze_cv\<close> returns a record to read them from.
\<close>

theorem counts_of_text:
  "(\<exists>r. analyze_cv cv_text = Inr r \<and>
        total_chars r = int (length cv_text) \<and> total_words r = int (token_count cv_text) \<and>
        0 \<le> total_chars r \<and> 0 \<le> total_words r) \<and>
   total_chars (analyze_cv_structure cv_text) = int (length cv_text) \<and>
   total_words (analyze_cv_structure cv_text) = int (token_count cv_text) \<and>
   0 \<le> total_chars (analyze_cv_structure cv_text) \<and>
   0 \<le> total_words (analyze_cv_structure cv_text)"
proof -
  from analyze_cv_returns [of cv_text] obtain r
    where "analyze_cv cv_text = Inr r"
      and "total_chars r = int (length cv_text)"
      and "total_words r = int (length (str_split cv_text))"
    by force
  then have "\<exists>r. analyze_cv cv_text = Inr r \<and>
        total_chars r = int (length cv_text) \<and> total_words r = int (token_count cv_text) \<and>
        0 \<le> total_chars r \<and> 0 \<le> total_words r"
    by (simp add: str_split_count)
  moreover have "total_chars (analyze_cv_structure cv_text) = int (length cv_text)"
    and "total_words (analyze_cv_structure cv_text) = int (token_count cv_text)"
    by (simp_all add: analyze_cv_structure_def Let_def str_split_count)
  ultimately show ?thesis by simp
qed

text \<open>
  C4. In \<^verbatim>\<open>analyze_cv\<close>, \<^verbatim>\<open>skills_indicators\<close> holds the terms of \<^verbatim>\<open>skills_list\<close> that
  occur in the text as whole words, whatever their case, in the order of the list: each
  such term once, spelt as in the list, and no other term. In \<^verbatim>\<open>analyze_cv_structure\<close>
  the list holds each distinct matched piece of text once, as the text spells it.
\<close>

theorem skills_whole_words:
  "(\<exists>r. analyze_cv cv_text = Inr r \<and>
        skills_indicators r = filter (\<lambda>skill. whole_word skill cv_text) skills_list \<and>
        (\<forall>skill\<in>set skills_list.
           count_list (skills_indicators r) skill = (if whole_word skill cv_text then 1 else 0))) \<and>
   distinct (skills_indicators (analyze_cv_structure cv_text)) \<and>
   set (skills_indicators (analyze_cv_structure cv_text)) = set (findall_each skill_patterns cv_text)"
proof -
  from analyze_cv_returns [of cv_text] obtain r
    where r: "analyze_cv cv_text = Inr r"
      and s: "skills_indicators r = filter (\<lambda>skill. re_search (word skill) cv_text) skills_list"
    by force
  have "filter (\<lambda>skill. re_search (word skill) cv_text) skills_list
      = filter (\<lambda>skill. whole_word skill cv_text) skills_list"
    by (rule filter_cong) (auto simp: search_word skills_list_words)
  with s have f: "skills_indicators r = filter (\<lambda>skill. whole_word skill cv_text) skills_list"
    by simp
  then have "\<forall>skill\<in>set skills_list.
      count_list (skills_indicators r) skill = (if whole_word skill cv_text then 1 else 0)"
    by (simp add: count_filter_distinct skills_list_distinct)
  moreover have "distinct (skills_indicators (analyze_cv_structure cv_text))"
    and "set (skills_indicators (analyze_cv_structure cv_text)) = set (findall_each skill_patterns cv_text)"
    by (simp_all add: analyze_cv_structure_def Let_def)
  ultimately show ?thesis
    using r f by blast
qed

text \<open>An instance: \<^verbatim>\<open>python\<close> is a word of the text, \<^verbatim>\<open>sql\<close> only the start of one.\<close>

theorem skills_whole_words_witness:
  "\<exists>r. analyze_cv ''python, sqlite'' = Inr r \<and>
        skills_indicators r = [''Python''] \<and>
        count_list (skills_indicators r) ''Python'' = 1 \<and>
        count_list (skills_indicators r) ''SQL'' = 0"
proof -
  have "whole_word ''Python'' ''python, sqlite''"
    and "\<not> whole_word ''SQL'' ''python, sqlite''"
    and "\<not> whole_word ''Kubernetes'' ''python, sqlite''"
    and "\<not> whole_word ''Project Management'' ''python, sqlite''"
    and "\<not> whole_word ''Data Analysis'' ''python, sqlite''"
    by (simp_all add: whole_word_def occurs_at_def char_eval upt_rec)
  then have "filter (\<lambda>skill. whole_word skill ''python, sqlite'') skills_list = [''Python'']"
    by (simp add: skills_list_def)
  with skills_whole_words [of "''python, sqlite''"] show ?thesis
    by auto
qed

text \<open>
  In \<^verbatim>\<open>analyze_cv_structure\<close> a term met in two spellings gives two elements, and the
  lower-case term of the pattern is not among them.
\<close>

theorem structure_skills_as_spelt:
  "set (skills_indicators (analyze_cv_structure ''Python PYTHON'')) = {''Python'', ''PYTHON''} \<and>
   count_list (skills_indicators (analyze_cv_structure ''Python PYTHON'')) ''python'' = 0 \<and>
   whole_word ''python'' ''Python PYTHON''"
proof -
  have "findall_each skill_patterns ''Python PYTHON'' = [''Python'', ''PYTHON'']"
    by (simp add: skill_patterns_def findall_eval)
  then have "skills_indicators (analyze_cv_structure ''Python PYTHON'') = [''Python'', ''PYTHON'']"
    by (simp add: analyze_cv_structure_def Let_def)
  moreover have "whole_word ''python'' ''Python PYTHON''"
    by (simp add: whole_word_def occurs_at_def char_eval upt_rec)
  ultimately show ?thesis
    by simp
qed

text \<open>
  C5. In \<^verbatim>\<open>analyze_cv\<close>, \<^verbatim>\<open>contact_info\<close> is the matches of the e-mail pattern followed
  by the matches of the phone pattern. In \<^verbatim>\<open>analyze_cv_structure\<close> the matches of the
  e-mail pattern come first and those of its phone pattern next, and the matches of the
  LinkedIn and GitHub patterns follow them. For the text
  \<^verbatim>\<open>Contact: a@b.com, phone 123-456-7890\<close> both give the address and then the number.
\<close>

theorem contact_emails_then_phones:
  "(\<exists>r. analyze_cv cv_text = Inr r \<and>
        contact_info r = re_findall email_pattern cv_text @ re_findall phone_pattern cv_text) \<and>
   contact_info (analyze_cv_structure cv_text) =
     re_findall email_pattern cv_text @ re_findall structure_phone_pattern cv_text @
     re_findall linkedin_pattern cv_text @ re_findall github_pattern cv_text \<and>
   (\<exists>r. analyze_cv ''Contact: a@b.com, phone 123-456-7890'' = Inr r \<and>
        contact_info r = [''a@b.com'', ''123-456-7890'']) \<and>
   contact_info (analyze_cv_structure ''Contact: a@b.com, phone 123-456-7890'') =
     [''a@b.com'', ''123-456-7890'']"
proof -
  have rep: "\<exists>r. analyze_cv t = Inr r \<and>
        contact_info r = re_findall email_pattern t @ re_findall phone_pattern t" for t
    using analyze_cv_returns [of t] by force
  from rep [of "''Contact: a@b.com, phone 123-456-7890''"]
  have "\<exists>r. analyze_cv ''Contact: a@b.com, phone 123-456-7890'' = Inr r \<and>
        contact_info r = [''a@b.com'', ''123-456-7890'']"
    by (simp add: example_emails example_phones)
  moreover have "contact_info (analyze_cv_structure ''Contact: a@b.com, phone 123-456-7890'') =
     [''a@b.com'', ''123-456-7890'']"
    by (simp add: structure_contact example_emails example_structure_phones example_linkedin
          example_github)
  ultimately show ?thesis
    using rep [of cv_text] structure_contact [of cv_text] by blast
qed

text \<open>A text with a GitHub address and neither e-mail address nor phone number.\<close>

theorem structure_contact_has_links:
  "contact_info (analyze_cv_structure ''github.com/x'') = [''github.com/x''] \<and>
   re_findall email_pattern ''github.com/x'' @ re_findall structure_phone_pattern ''github.com/x'' = []"
proof -
  have "re_findall email_pattern ''github.com/x'' = []"
    by (simp add: email_pattern_def findall_eval)
  moreover have "re_findall structure_phone_pattern ''github.com/x'' = []"
    by (simp add: structure_phone_pattern_def findall_eval)
  moreover have "re_findall linkedin_pattern ''github.com/x'' = []"
    by (simp add: linkedin_pattern_def findall_eval)
  moreover have "re_findall github_pattern ''github.com/x'' = [''github.com/x'']"
    by (simp add: github_pattern_def findall_eval)
  ultimately show ?thesis
    by (simp add: structure_contact)
qed

text \<open>
  C6. In \<^verbatim>\<open>analyze_cv_structure\<close>, the warning for a short text is among the issues
  exactly when the text has fewer than 500 characters, and the warning for a long text
  exactly when it has more than 10000: nothing else of the text matters. \<^verbatim>\<open>analyze_cv\<close>
  does not look at the length: its issues are among three messages about sections and
  contact information.
\<close>

theorem length_warnings:
  "(too_short \<in> set (potential_issues (analyze_cv_structure cv_text)) \<longleftrightarrow> length cv_text < 500) \<and>
   (too_long \<in> set (potential_issues (analyze_cv_structure cv_text)) \<longleftrightarrow> 10000 < length cv_text) \<and>
   (\<exists>r. analyze_cv cv_text = Inr r \<and>
        set (potential_issues r) \<subseteq>
          {''Missing experience section'', ''Missing education section'', ''No contact information found''})"
proof -
  have "too_short \<in> set (potential_issues (analyze_cv_structure cv_text)) \<longleftrightarrow> length cv_text < 500"
    using issue_texts_differ
    by (simp add: analyze_cv_structure_def Let_def structure_issues_def)
  moreover have "too_long \<in> set (potential_issues (analyze_cv_structure cv_text)) \<longleftrightarrow> 10000 < length cv_text"
    using issue_texts_differ
    by (simp add: analyze_cv_structure_def Let_def structure_issues_def)
  moreover have "\<exists>r. analyze_cv cv_text = Inr r \<and>
        set (potential_issues r) \<subseteq>
          {''Missing experience section'', ''Missing education section'', ''No contact information found''}"
    using analyze_cv_returns [of cv_text] by (force simp: cv_issues_def)
  ultimately show ?thesis
    by blast
qed

text \<open>The empty text is short, and \<^verbatim>\<open>analyze_cv\<close> does not say so.\<close>

theorem no_length_warning_in_analyze_cv:
  "\<exists>r. analyze_cv '''' = Inr r \<and>
        total_chars r = 0 \<and>
        potential_issues r =
          [''Missing experience section'', ''Missing education section'', ''No contact information found'']"
proof -
  have "re_findall email_pattern '''' = []" and "re_findall phone_pattern '''' = []"
    by (simp_all add: email_pattern_def phone_pattern_def findall_eval)
  moreover from analyze_cv_returns [of "''''"] obtain r st
    where "analyze_cv '''' = Inr r" and "scan_lines scan_start (str_splitlines '''') = Inr st"
      and "total_chars r = 0"
      and "potential_issues r =
             cv_issues (found st) (re_findall email_pattern '''' @ re_findall phone_pattern '''')"
    by force
  moreover from this have "found st = []"
    by (auto simp: str_splitlines_def scan_start_def)
  ultimately show ?thesis
    by (simp add: cv_issues_def)
qed

text \<open>
  C7. For the empty text \<^verbatim>\<open>analyze_cv_structure\<close> returns this record: no characters, no
  words, nothing found, and the four warnings for a short text, no skills, no experience
  and no headers, in this order. The number of lines is one: \<^verbatim>\<open>''.split('\n')\<close> is the
  list of one empty piece.
\<close>

theorem empty_text:
  "analyze_cv_structure '''' =
     \<lparr>total_chars = 0, total_words = 0, sections_found = [], skills_indicators = [],
      experience_indicators = [], education_indicators = [], contact_info = [],
      potential_issues = [too_short, no_skills, no_experience, no_headers],
      total_lines = 1\<rparr>"
proof -
  have "re_search pattern '''' \<longleftrightarrow> matches pattern (None, []) \<noteq> []" for pattern
    by (simp add: re_search_def)
  then have "sections_found (analyze_cv_structure '''') = []"
    by (simp add: structure_sections structure_section_patterns_def regex_eval char_eval)
  moreover have "findall_each skill_patterns '''' = []"
    and "findall_each structure_exp_patterns '''' = []"
    and "findall_each structure_edu_patterns '''' = []"
    and "findall_each contact_patterns '''' = []"
    by (simp_all add: skill_patterns_def structure_exp_patterns_def structure_edu_patterns_def
          contact_patterns_def email_pattern_def structure_phone_pattern_def linkedin_pattern_def
          github_pattern_def findall_eval)
  moreover have "str_split '''' = []"
    by (simp add: str_split.simps)
  ultimately show ?thesis
    by (simp add: analyze_cv_structure_def Let_def structure_issues_def str_split_newline_def)
qed

text \<open>The line count of the empty text is not zero.\<close>

theorem empty_text_has_one_line:
  "total_lines (analyze_cv_structure '''') \<noteq> 0"
  by (simp add: analyze_cv_structure_def Let_def str_split_newline_def)

text \<open>
  C8. In \<^verbatim>\<open>analyze_cv\<close>, a text without header lines gives an empty \<^verbatim>\<open>sections_found\<close>
  and an empty \<^verbatim>\<open>sections_content\<close>; and the lines before the first header line leave no
  trace in either: both are what the loop computes from the remaining lines alone.
\<close>

theorem lines_before_first_header:
  "\<exists>r. analyze_cv cv_text = Inr r \<and>
        (List.map_filter header_line (str_splitlines cv_text) = [] \<longrightarrow>
           sections_found r = [] \<and> sections_content r = Map.empty) \<and>
        (\<forall>before rest.
           str_splitlines cv_text = before @ rest \<and> List.map_filter header_line before = [] \<longrightarrow>
           (\<exists>st. scan_lines scan_start rest = Inr st \<and>
                 sections_found r = found st \<and>
                 sections_content r = (\<lambda>name. map_option join_newline (content st name))))"
proof -
  from analyze_cv_sections [of cv_text] obtain r st
    where r: "analyze_cv cv_text = Inr r"
      and st: "scan_lines scan_start (str_splitlines cv_text) = Inr st"
      and f: "sections_found r = found st"
      and c: "sections_content r = (\<lambda>name. map_option join_newline (content st name))"
    by blast
  have skip: "scan_lines scan_start rest = Inr st"
    if "str_splitlines cv_text = before @ rest" and "List.map_filter header_line before = []"
    for before rest
  proof -
    from that(2) have "scan_lines scan_start before = Inr scan_start"
      by (simp add: scan_lines_no_header scan_start_def)
    with st that(1) show ?thesis
      by (simp add: scan_lines_append)
  qed
  have "sections_found r = [] \<and> sections_content r = Map.empty"
    if "List.map_filter header_line (str_splitlines cv_text) = []"
  proof -
    from skip [of "str_splitlines cv_text" "[]"] that have "st = scan_start"
      by simp
    then show ?thesis
      by (simp add: f c scan_start_def)
  qed
  with skip f c r show ?thesis
    by blast
qed

text \<open>An instance: a name above the first header.\<close>

theorem lines_before_first_header_witness:
  "\<exists>r. analyze_cv (join_newline [''John Smith'', ''Skills'', ''Python'']) = Inr r \<and>
        sections_found r = [''Skills''] \<and>
        sections_content r ''Skills'' = Some ''Python'' \<and>
        dom (sections_content r) = {''Skills''}"
proof -
  let ?text = "join_newline [''John Smith'', ''Skills'', ''Python'']"
  have lines: "str_splitlines ?text = [''John Smith''] @ [''Skills'', ''Python'']"
    by (simp add: str_splitlines_def char_eval)
  have before: "List.map_filter header_line [''John Smith''] = []"
    by (simp add: header_line_def scan_eval List.map_filter_simps)
  from lines_before_first_header [of ?text] lines before obtain r st
    where r: "analyze_cv ?text = Inr r"
      and st: "scan_lines scan_start [''Skills'', ''Python''] = Inr st"
      and f: "sections_found r = found st"
      and c: "sections_content r = (\<lambda>name. map_option join_newline (content st name))"
    by blast
  from st have "found st = [''Skills'']" and "content st ''Skills'' = Some [''Python'']"
    and "dom (content st) = {''Skills''}"
    by (auto simp: scan_eval split: if_splits)
  with r f c show ?thesis
    by (auto simp: dom_def)
qed

text \<open>
  The other fields are computed from the whole text, whatever the headers: a line before
  the first header that is an e-mail address is an element of \<^verbatim>\<open>contact_info\<close>.
\<close>

theorem pre_header_line_in_contact_info:
  "\<exists>r. analyze_cv ''a@b.com'' = Inr r \<and>
        str_splitlines ''a@b.com'' = [''a@b.com''] \<and>
        header_line ''a@b.com'' = None \<and>
        sections_found r = [] \<and>
        contact_info r = [''a@b.com'']"
proof -
  have lines: "str_splitlines ''a@b.com'' = [''a@b.com'']"
    by (simp add: str_splitlines_def char_eval)
  have line: "header_line ''a@b.com'' = None"
    by (simp add: header_line_def scan_eval)
  have emails: "re_findall email_pattern ''a@b.com'' = [''a@b.com'']"
    by (simp add: re_findall_def email_pattern_def findall_nomatch findall_match char_eval regex_eval)
  have phones: "re_findall phone_pattern ''a@b.com'' = []"
    by (simp add: re_findall_def phone_pattern_def findall_nomatch findall_match char_eval regex_eval)
  from analyze_cv_returns [of "''a@b.com''"] obtain r st
    where r: "analyze_cv ''a@b.com'' = Inr r"
      and st: "scan_lines scan_start (str_splitlines ''a@b.com'') = Inr st"
      and f: "sections_found r = found st"
      and c: "contact_info r = re_findall email_pattern ''a@b.com'' @ re_findall phone_pattern ''a@b.com''"
    by force
  from st have "found st = []"
    by (auto simp: lines line scan_line_body_closed scan_start_def)
  with r f c lines line emails phones show ?thesis
    by simp
qed

text \<open>
  C10. The keys of \<^verbatim>\<open>sections_content\<close> are the names listed in \<^verbatim>\<open>sections_found\<close>,
  for every text.
\<close>

theorem sections_content_keys:
  "\<exists>r. analyze_cv cv_text = Inr r \<and> dom (sections_content r) = set (sections_found r)"
proof -
  from analyze_cv_sections [of cv_text] obtain r st
    where r: "analyze_cv cv_text = Inr r" and "scan_inv st" and "sections_found r = found st"
      and c: "sections_content r = (\<lambda>name. map_option join_newline (content st name))"
    by blast
  then have "dom (content st) = set (sections_found r)"
    by (simp add: scan_inv_def)
  moreover have "dom (sections_content r) = dom (content st)"
    unfolding c by (auto simp: dom_def)
  ultimately show ?thesis
    using r by auto
qed

end
